theory Spec2Isabelle
  imports Main "HOL-Library.Word"
begin

section \<open>Go integers and the outcome of a call\<close>

text \<open>
  Go's \<open>int\<close> is a signed machine integer, 64 bits wide on 64-bit targets. It is
  modelled as a 64-bit word: \<open>+\<close> and unary \<open>-\<close> wrap around, \<open><s\<close> is the signed
  comparison and \<open>sint\<close> reads the two's complement value.
\<close>

type_synonym go_int = "64 word"

text \<open>
  A call either returns, or parks its goroutine on a channel or mutex operation that
  cannot proceed (with no other goroutine running, it stays parked), or panics. Each
  outcome carries the state the call leaves behind.
\<close>

datatype panic =
    MakechanSizeOutOfRange
  | OutOfRangeAddArgument
  | UnlockOfUnlockedMutex

datatype 'a outcome = Returns 'a | Blocks 'a | Panics panic 'a

fun state_of :: "'a outcome \<Rightarrow> 'a" where
  "state_of (Returns s) = s"
| "state_of (Blocks s) = s"
| "state_of (Panics p s) = s"

text \<open>Sequencing: the next statement runs only when the previous one returned.\<close>

fun and_then :: "'a outcome \<Rightarrow> ('a \<Rightarrow> 'a outcome) \<Rightarrow> 'a outcome" where
  "and_then (Returns s) f = f s"
| "and_then (Blocks s) f = Blocks s"
| "and_then (Panics p s) f = Panics p s"

lemma and_then_cong [fundef_cong]:
  "x = y \<Longrightarrow> (\<And>s. y = Returns s \<Longrightarrow> f s = h s) \<Longrightarrow> and_then x f = and_then y h"
  by (cases y) simp_all

section \<open>The channel of empty structs\<close>

text \<open>
  A \<open>chan struct{}\<close> carries no data: its state is the number of elements queued
  (\<open>qcount\<close>, what \<open>len\<close> reports) and the size of its buffer (\<open>dataqsiz\<close>, what
  \<open>cap\<close> reports). \<open>make(chan struct{}, size)\<close> panics for a negative size only; the
  element type is empty, so no size is too large, and size 0 gives an unbuffered channel.
\<close>

record chan =
  qcount :: int
  dataqsiz :: int

definition makechan :: "go_int \<Rightarrow> panic + chan" where
  "makechan size_arg =
     (if size_arg <s 0 then Inl MakechanSizeOutOfRange
      else Inr \<lparr>qcount = 0, dataqsiz = sint size_arg\<rparr>)"

definition cap :: "chan \<Rightarrow> go_int" where
  "cap ch = word_of_int (dataqsiz ch)"

text \<open>
  A send proceeds when the buffer has room and parks the sender otherwise; a receive
  proceeds when an element is queued and parks the receiver otherwise. On an unbuffered
  channel both park, there being no partner goroutine.
\<close>

definition chansend :: "chan \<Rightarrow> chan outcome" where
  "chansend ch =
     (if qcount ch < dataqsiz ch then Returns (ch\<lparr>qcount := qcount ch + 1\<rparr>)
      else Blocks ch)"

definition chanrecv :: "chan \<Rightarrow> chan outcome" where
  "chanrecv ch =
     (if 0 < qcount ch then Returns (ch\<lparr>qcount := qcount ch - 1\<rparr>)
      else Blocks ch)"

section \<open>The Gate\<close>

text \<open>The struct: the channel \<open>c\<close> and the mutex \<open>m\<close> (true when locked).\<close>

record Gate =
  c :: chan
  m :: bool

fun on_chan :: "Gate \<Rightarrow> chan outcome \<Rightarrow> Gate outcome" where
  "on_chan g (Returns ch) = Returns (g\<lparr>c := ch\<rparr>)"
| "on_chan g (Blocks ch) = Blocks (g\<lparr>c := ch\<rparr>)"
| "on_chan g (Panics p ch) = Panics p (g\<lparr>c := ch\<rparr>)"

text \<open>The statements \<^verbatim>\<open>g.c <- struct{}{}\<close> and \<^verbatim>\<open><-g.c\<close>.\<close>

definition send :: "Gate \<Rightarrow> Gate outcome" where
  "send g = on_chan g (chansend (c g))"

definition recv :: "Gate \<Rightarrow> Gate outcome" where
  "recv g = on_chan g (chanrecv (c g))"

text \<open>
  \<^verbatim>\<open>g.m.Lock()\<close> and \<^verbatim>\<open>g.m.Unlock()\<close> of \<open>sync.Mutex\<close>: locking a locked mutex parks
  the caller, unlocking an unlocked one is a fatal error of the runtime.
\<close>

definition mutex_Lock :: "Gate \<Rightarrow> Gate outcome" where
  "mutex_Lock g = (if m g then Blocks g else Returns (g\<lparr>m := True\<rparr>))"

definition mutex_Unlock :: "Gate \<Rightarrow> Gate outcome" where
  "mutex_Unlock g =
     (if m g then Returns (g\<lparr>m := False\<rparr>) else Panics UnlockOfUnlockedMutex g)"

text \<open>\<^verbatim>\<open>func New(max int) *Gate { return &Gate{c: make(chan struct{}, max)} }\<close>\<close>

definition New :: "go_int \<Rightarrow> panic + Gate" where
  "New maxv =
     (case makechan maxv of
        Inl p \<Rightarrow> Inl p
      | Inr ch \<Rightarrow> Inr \<lparr>c = ch, m = False\<rparr>)"

definition Lock :: "Gate \<Rightarrow> Gate outcome" where
  "Lock g = send g"

definition Unlock :: "Gate \<Rightarrow> Gate outcome" where
  "Unlock g = recv g"

definition Done :: "Gate \<Rightarrow> Gate outcome" where
  "Done g = recv g"

text \<open>
  The two loops of \<open>Add\<close>, \<^verbatim>\<open>for i := 0; i < n; i++ { g.c <- struct{}{} }\<close> and
  \<^verbatim>\<open>for i := 0; i < (-n); i++ { <-g.c }\<close>, with the counter and the bound as Go ints.
\<close>

function add_send_loop :: "go_int \<Rightarrow> go_int \<Rightarrow> Gate \<Rightarrow> Gate outcome" where
  "add_send_loop i n g =
     (if i <s n then and_then (send g) (add_send_loop (i + 1) n)
      else Returns g)"
  by pat_completeness auto

function add_recv_loop :: "go_int \<Rightarrow> go_int \<Rightarrow> Gate \<Rightarrow> Gate outcome" where
  "add_recv_loop i n g =
     (if i <s n then and_then (recv g) (add_recv_loop (i + 1) n)
      else Returns g)"
  by pat_completeness auto

lemma sint_succ:
  fixes i n :: go_int
  assumes "i <s n"
  shows "sint (i + 1) = sint i + 1"
proof -
  have lo: "- (2 ^ 63) \<le> sint i" using sint_ge [of i] by simp
  have hi: "sint n < 2 ^ 63" using sint_lt [of n] by simp
  from assms have "sint i < sint n" by (simp add: word_sless_alt)
  with lo hi have "- (2 ^ 63) \<le> sint i + 1" "sint i + 1 < 2 ^ 63" by linarith+
  then have "signed_take_bit 63 (sint i + 1) = sint i + 1"
    by (rule signed_take_bit_int_eq_self)
  then show ?thesis by (simp add: sint_word_add)
qed

termination add_send_loop
  by (relation "measure (\<lambda>(i, n, g). nat (sint n - sint i))")
     (auto simp: sint_succ word_sless_alt)

termination add_recv_loop
  by (relation "measure (\<lambda>(i, n, g). nat (sint n - sint i))")
     (auto simp: sint_succ word_sless_alt)

definition Add :: "Gate \<Rightarrow> go_int \<Rightarrow> Gate outcome" where
  "Add g n =
     (let cp = cap (c g) in
      if cp <s n \<or> cp <s - n then Panics OutOfRangeAddArgument g
      else if 0 <s n then add_send_loop 0 n g
      else add_recv_loop 0 (- n) g)"

text \<open>
  The two loops of \<open>Wait\<close>; their bound \<open>cap(g.c)\<close> is read again at every iteration.
\<close>

lemma send_Returns_c:
  "send g = Returns g' \<Longrightarrow> dataqsiz (c g') = dataqsiz (c g)"
  by (auto simp: send_def chansend_def split: if_splits)

lemma recv_Returns_c:
  "recv g = Returns g' \<Longrightarrow> dataqsiz (c g') = dataqsiz (c g)"
  by (auto simp: recv_def chanrecv_def split: if_splits)

function wait_send_loop :: "go_int \<Rightarrow> Gate \<Rightarrow> Gate outcome" where
  "wait_send_loop i g =
     (if i <s cap (c g) then and_then (send g) (wait_send_loop (i + 1))
      else Returns g)"
  by pat_completeness auto

function wait_recv_loop :: "go_int \<Rightarrow> Gate \<Rightarrow> Gate outcome" where
  "wait_recv_loop i g =
     (if i <s cap (c g) then and_then (recv g) (wait_recv_loop (i + 1))
      else Returns g)"
  by pat_completeness auto

termination wait_send_loop
  by (relation "measure (\<lambda>(i, g). nat (sint (cap (c g)) - sint i))")
     (auto simp: sint_succ word_sless_alt cap_def dest: send_Returns_c)

termination wait_recv_loop
  by (relation "measure (\<lambda>(i, g). nat (sint (cap (c g)) - sint i))")
     (auto simp: sint_succ word_sless_alt cap_def dest: recv_Returns_c)

text \<open>
  \<open>Wait\<close> locks the mutex, runs both loops and, by its \<open>defer\<close>, unlocks the mutex when
  the body returns. A goroutine parked inside a loop never reaches the deferred call.
\<close>

definition Wait :: "Gate \<Rightarrow> Gate outcome" where
  "Wait g =
     and_then (mutex_Lock g) (\<lambda>g1.
       and_then (and_then (wait_send_loop 0 g1) (wait_recv_loop 0)) mutex_Unlock)"

section \<open>Observations and sequences of calls\<close>

text \<open>The spec's \<open>held\<close> and \<open>capacity\<close>, read off the channel.\<close>

definition held :: "Gate \<Rightarrow> int" where
  "held g = qcount (c g)"

definition capacity :: "Gate \<Rightarrow> int" where
  "capacity g = dataqsiz (c g)"

definition gate_inv :: "Gate \<Rightarrow> bool" where
  "gate_inv g \<longleftrightarrow> 0 \<le> held g \<and> held g \<le> capacity g"

text \<open>The invariant together with the capacity fixed at construction.\<close>

definition bounded_by :: "int \<Rightarrow> Gate \<Rightarrow> bool" where
  "bounded_by k g \<longleftrightarrow> gate_inv g \<and> capacity g = k"

text \<open>The operations of one Gate, and a goroutine calling them one after the other.\<close>

datatype op = OpLock | OpUnlock | OpAdd go_int | OpDone | OpWait

fun apply_op :: "op \<Rightarrow> Gate \<Rightarrow> Gate outcome" where
  "apply_op OpLock g = Lock g"
| "apply_op OpUnlock g = Unlock g"
| "apply_op (OpAdd n) g = Add g n"
| "apply_op OpDone g = Done g"
| "apply_op OpWait g = Wait g"

fun run :: "op list \<Rightarrow> Gate \<Rightarrow> Gate outcome" where
  "run [] g = Returns g"
| "run (x # xs) g = and_then (apply_op x g) (run xs)"

text \<open>
  The spec's words "\<open>k\<close> sequential Acquire (Release) operations": the same call made
  \<open>k\<close> times in a row.
\<close>

fun sequential_calls :: "nat \<Rightarrow> (Gate \<Rightarrow> Gate outcome) \<Rightarrow> Gate \<Rightarrow> Gate outcome" where
  "sequential_calls 0 f g = Returns g"
| "sequential_calls (Suc k) f g = and_then (f g) (sequential_calls k f)"

text \<open>
  The spec's words for \<open>Wait\<close>: take the idle lock, make \<open>capacity\<close> sequential Acquire
  operations, then \<open>capacity\<close> sequential Release operations, release the idle lock.
\<close>

definition Wait_spec :: "Gate \<Rightarrow> Gate outcome" where
  "Wait_spec g =
     and_then (mutex_Lock g) (\<lambda>g1.
       and_then
         (and_then (sequential_calls (nat (capacity g)) Lock g1)
            (sequential_calls (nat (capacity g)) Unlock))
         mutex_Unlock)"

section \<open>Goroutines sharing a Gate\<close>

text \<open>
  \<open>Lock\<close>, \<open>Unlock\<close> and \<open>Done\<close> are one channel operation each, which the runtime
  performs atomically. A goroutine is the list of such calls it has still to make; a
  step of goroutine \<open>i\<close> performs its next call when that call can proceed on the shared
  Gate, and there is no step while the call would park it. This is the behaviour of a
  buffered channel (\<open>dataqsiz > 0\<close>), where a send and a receive never need each other
  at the same instant.
\<close>

datatype chan_call = CallLock | CallUnlock | CallDone

fun do_call :: "chan_call \<Rightarrow> Gate \<Rightarrow> Gate outcome" where
  "do_call CallLock g = Lock g"
| "do_call CallUnlock g = Unlock g"
| "do_call CallDone g = Done g"

fun step :: "nat \<Rightarrow> Gate \<times> chan_call list list \<Rightarrow> (Gate \<times> chan_call list list) option" where
  "step i (g, ts) =
     (if i < length ts then
        (case ts ! i of
           [] \<Rightarrow> None
         | x # rest \<Rightarrow>
             (case do_call x g of
                Returns g' \<Rightarrow> Some (g', ts[i := rest])
              | Blocks g' \<Rightarrow> None
              | Panics p g' \<Rightarrow> None))
      else None)"

text \<open>
  A schedule names the goroutine that is offered the processor at each turn; a goroutine
  that is parked, or has finished, lets its turn pass.
\<close>

fun exec :: "nat list \<Rightarrow> Gate \<times> chan_call list list \<Rightarrow> Gate \<times> chan_call list list" where
  "exec [] cfg = cfg"
| "exec (i # sched) cfg =
     (case step i cfg of
        None \<Rightarrow> exec sched cfg
      | Some cfg' \<Rightarrow> exec sched cfg')"

section \<open>Channel operations on the Gate\<close>

lemma on_chan_same [simp]: "on_chan g (Blocks (c g)) = Blocks g"
  by simp

lemma send_eq:
  "send g = (if held g < capacity g then Returns (g\<lparr>c := (c g)\<lparr>qcount := held g + 1\<rparr>\<rparr>) else Blocks g)"
  by (simp add: send_def chansend_def held_def capacity_def)

lemma recv_eq:
  "recv g = (if 0 < held g then Returns (g\<lparr>c := (c g)\<lparr>qcount := held g - 1\<rparr>\<rparr>) else Blocks g)"
  by (simp add: recv_def chanrecv_def held_def capacity_def)

lemma Lock_is_send: "Lock = send"
  by (rule ext) (simp add: Lock_def)

lemma Unlock_is_recv: "Unlock = recv"
  by (rule ext) (simp add: Unlock_def)

lemma Done_is_recv: "Done = recv"
  by (rule ext) (simp add: Done_def)

section \<open>The loops as repeated calls\<close>

declare add_send_loop.simps [simp del] add_recv_loop.simps [simp del]
  wait_send_loop.simps [simp del] wait_recv_loop.simps [simp del]

lemma iterations_Suc:
  fixes i n :: go_int
  assumes "i <s n"
  shows "nat (sint n - sint i) = Suc (nat (sint n - sint (i + 1)))"
proof -
  from assms have "sint i < sint n" by (simp add: word_sless_alt)
  with sint_succ [OF assms] show ?thesis by simp
qed

lemma iterations_0:
  fixes i n :: go_int
  assumes "\<not> i <s n"
  shows "nat (sint n - sint i) = 0"
  using assms by (simp add: word_sless_alt)

lemma add_send_loop_sequential:
  "add_send_loop i n g = sequential_calls (nat (sint n - sint i)) send g"
proof (induction i n g rule: add_send_loop.induct)
  case (1 i n g)
  show ?case
  proof (cases "i <s n")
    case True
    have "add_send_loop i n g = and_then (send g) (add_send_loop (i + 1) n)"
      using True by (simp add: add_send_loop.simps [of i n g])
    also have "\<dots> = and_then (send g) (sequential_calls (nat (sint n - sint (i + 1))) send)"
      by (rule and_then_cong [OF refl]) (rule "1.IH" [OF True])
    also have "\<dots> = sequential_calls (nat (sint n - sint i)) send g"
      by (simp add: iterations_Suc [OF True])
    finally show ?thesis .
  next
    case False
    then show ?thesis
      by (simp add: add_send_loop.simps [of i n g] iterations_0)
  qed
qed

lemma add_recv_loop_sequential:
  "add_recv_loop i n g = sequential_calls (nat (sint n - sint i)) recv g"
proof (induction i n g rule: add_recv_loop.induct)
  case (1 i n g)
  show ?case
  proof (cases "i <s n")
    case True
    have "add_recv_loop i n g = and_then (recv g) (add_recv_loop (i + 1) n)"
      using True by (simp add: add_recv_loop.simps [of i n g])
    also have "\<dots> = and_then (recv g) (sequential_calls (nat (sint n - sint (i + 1))) recv)"
      by (rule and_then_cong [OF refl]) (rule "1.IH" [OF True])
    also have "\<dots> = sequential_calls (nat (sint n - sint i)) recv g"
      by (simp add: iterations_Suc [OF True])
    finally show ?thesis .
  next
    case False
    then show ?thesis
      by (simp add: add_recv_loop.simps [of i n g] iterations_0)
  qed
qed

lemma send_Returns_cap: "send g = Returns g' \<Longrightarrow> cap (c g') = cap (c g)"
  by (simp add: cap_def send_Returns_c)

lemma recv_Returns_cap: "recv g = Returns g' \<Longrightarrow> cap (c g') = cap (c g)"
  by (simp add: cap_def recv_Returns_c)

lemma wait_send_loop_fixed_bound:
  "wait_send_loop i g = add_send_loop i (cap (c g)) g"
proof (induction i g rule: wait_send_loop.induct)
  case (1 i g)
  show ?case
  proof (cases "i <s cap (c g)")
    case True
    have "wait_send_loop i g = and_then (send g) (wait_send_loop (i + 1))"
      using True by (simp add: wait_send_loop.simps [of i g])
    also have "\<dots> = and_then (send g) (add_send_loop (i + 1) (cap (c g)))"
    proof (rule and_then_cong [OF refl])
      fix s assume s: "send g = Returns s"
      from "1.IH" [OF True s] send_Returns_cap [OF s]
      show "wait_send_loop (i + 1) s = add_send_loop (i + 1) (cap (c g)) s" by simp
    qed
    also have "\<dots> = add_send_loop i (cap (c g)) g"
      using True by (simp add: add_send_loop.simps [of i "cap (c g)" g])
    finally show ?thesis .
  next
    case False
    then show ?thesis
      by (simp add: wait_send_loop.simps [of i g] add_send_loop.simps [of i "cap (c g)" g])
  qed
qed

lemma wait_recv_loop_fixed_bound:
  "wait_recv_loop i g = add_recv_loop i (cap (c g)) g"
proof (induction i g rule: wait_recv_loop.induct)
  case (1 i g)
  show ?case
  proof (cases "i <s cap (c g)")
    case True
    have "wait_recv_loop i g = and_then (recv g) (wait_recv_loop (i + 1))"
      using True by (simp add: wait_recv_loop.simps [of i g])
    also have "\<dots> = and_then (recv g) (add_recv_loop (i + 1) (cap (c g)))"
    proof (rule and_then_cong [OF refl])
      fix s assume s: "recv g = Returns s"
      from "1.IH" [OF True s] recv_Returns_cap [OF s]
      show "wait_recv_loop (i + 1) s = add_recv_loop (i + 1) (cap (c g)) s" by simp
    qed
    also have "\<dots> = add_recv_loop i (cap (c g)) g"
      using True by (simp add: add_recv_loop.simps [of i "cap (c g)" g])
    finally show ?thesis .
  next
    case False
    then show ?thesis
      by (simp add: wait_recv_loop.simps [of i g] add_recv_loop.simps [of i "cap (c g)" g])
  qed
qed

section \<open>Go ints: capacity, negation and the least int\<close>

lemma sint_cap:
  assumes "0 \<le> capacity g" and "capacity g < 2 ^ 63"
  shows "sint (cap (c g)) = capacity g"
proof -
  from assms have "signed_take_bit 63 (capacity g) = capacity g"
    by (intro signed_take_bit_int_eq_self) auto
  then show ?thesis by (simp add: cap_def capacity_def sint_sbintrunc')
qed

lemma sint_neg:
  fixes n :: go_int
  assumes "- (2 ^ 63) < sint n"
  shows "sint (- n) = - sint n"
proof -
  have "sint n < 2 ^ 63" using sint_lt [of n] by simp
  with assms have "signed_take_bit 63 (- sint n) = - sint n"
    by (intro signed_take_bit_int_eq_self) auto
  then show ?thesis by (simp add: sint_word_minus)
qed

lemma not_below_min_int: "\<not> x <s (- (2 ^ 63) :: go_int)"
  using sint_ge [of x] by (simp add: word_sless_alt)

section \<open>The capacity invariant\<close>

lemma bounded_by_m [simp]: "bounded_by k (g\<lparr>m := b\<rparr>) = bounded_by k g"
  by (simp add: bounded_by_def gate_inv_def held_def capacity_def)

lemma send_bounded: "bounded_by k g \<Longrightarrow> bounded_by k (state_of (send g))"
  by (simp add: send_eq) (simp add: bounded_by_def gate_inv_def held_def capacity_def)

lemma recv_bounded: "bounded_by k g \<Longrightarrow> bounded_by k (state_of (recv g))"
  by (simp add: recv_eq) (simp add: bounded_by_def gate_inv_def held_def capacity_def)

lemma and_then_bounded:
  assumes "bounded_by k (state_of x)"
    and "\<And>s. x = Returns s \<Longrightarrow> bounded_by k (state_of (f s))"
  shows "bounded_by k (state_of (and_then x f))"
  using assms by (cases x) simp_all

lemma sequential_calls_bounded:
  assumes f: "\<And>s. bounded_by k s \<Longrightarrow> bounded_by k (state_of (f s))"
    and g: "bounded_by k g"
  shows "bounded_by k (state_of (sequential_calls j f g))"
  using g
proof (induction j arbitrary: g)
  case 0
  then show ?case by simp
next
  case (Suc j)
  show ?case
  proof (simp, rule and_then_bounded)
    show "bounded_by k (state_of (f g))" by (rule f [OF Suc.prems])
  next
    fix s assume "f g = Returns s"
    with f [OF Suc.prems] have "bounded_by k s" by simp
    then show "bounded_by k (state_of (sequential_calls j f s))" by (rule Suc.IH)
  qed
qed

lemma Add_bounded: "bounded_by k g \<Longrightarrow> bounded_by k (state_of (Add g n))"
  by (simp add: Add_def Let_def add_send_loop_sequential add_recv_loop_sequential
      sequential_calls_bounded send_bounded recv_bounded)

lemma mutex_Lock_bounded: "bounded_by k g \<Longrightarrow> bounded_by k (state_of (mutex_Lock g))"
  by (simp add: mutex_Lock_def)

lemma mutex_Unlock_bounded: "bounded_by k g \<Longrightarrow> bounded_by k (state_of (mutex_Unlock g))"
  by (simp add: mutex_Unlock_def)

lemma Wait_bounded:
  assumes "bounded_by k g"
  shows "bounded_by k (state_of (Wait g))"
  unfolding Wait_def
proof (rule and_then_bounded)
  show "bounded_by k (state_of (mutex_Lock g))" by (rule mutex_Lock_bounded [OF assms])
next
  fix g1 assume "mutex_Lock g = Returns g1"
  with mutex_Lock_bounded [OF assms] have g1: "bounded_by k g1" by simp
  have sends: "bounded_by k (state_of (wait_send_loop 0 g1))"
    by (simp add: wait_send_loop_fixed_bound add_send_loop_sequential
        sequential_calls_bounded send_bounded g1)
  have loops: "bounded_by k (state_of (and_then (wait_send_loop 0 g1) (wait_recv_loop 0)))"
  proof (rule and_then_bounded [OF sends])
    fix g2 assume "wait_send_loop 0 g1 = Returns g2"
    with sends have "bounded_by k g2" by simp
    then show "bounded_by k (state_of (wait_recv_loop 0 g2))"
      by (simp add: wait_recv_loop_fixed_bound add_recv_loop_sequential
          sequential_calls_bounded recv_bounded)
  qed
  show "bounded_by k (state_of (and_then (and_then (wait_send_loop 0 g1) (wait_recv_loop 0)) mutex_Unlock))"
  proof (rule and_then_bounded [OF loops])
    fix g3 assume "and_then (wait_send_loop 0 g1) (wait_recv_loop 0) = Returns g3"
    with loops have "bounded_by k g3" by simp
    then show "bounded_by k (state_of (mutex_Unlock g3))" by (rule mutex_Unlock_bounded)
  qed
qed

lemma apply_op_bounded: "bounded_by k g \<Longrightarrow> bounded_by k (state_of (apply_op x g))"
  by (cases x)
    (simp_all add: Lock_def Unlock_def Done_def send_bounded recv_bounded Add_bounded Wait_bounded)

lemma run_bounded: "bounded_by k g \<Longrightarrow> bounded_by k (state_of (run xs g))"
proof (induction xs arbitrary: g)
  case Nil
  then show ?case by simp
next
  case (Cons x xs)
  show ?case
  proof (simp, rule and_then_bounded)
    show "bounded_by k (state_of (apply_op x g))" by (rule apply_op_bounded [OF Cons.prems])
  next
    fix s assume "apply_op x g = Returns s"
    with apply_op_bounded [OF Cons.prems, of x] have "bounded_by k s" by simp
    then show "bounded_by k (state_of (run xs s))" by (rule Cons.IH)
  qed
qed

lemma New_Inr:
  "New maxv = Inr g \<Longrightarrow> \<not> maxv <s 0 \<and> g = \<lparr>c = \<lparr>qcount = 0, dataqsiz = sint maxv\<rparr>, m = False\<rparr>"
  by (auto simp: New_def makechan_def split: if_splits)

lemma New_bounded: "New maxv = Inr g \<Longrightarrow> bounded_by (sint maxv) g"
  by (drule New_Inr)
    (simp add: bounded_by_def gate_inv_def held_def capacity_def word_sless_alt)

text \<open>
  C1. A Gate built by \<open>New\<close> with a positive capacity keeps \<open>0 \<le> held \<le> capacity\<close>,
  and its capacity, through every sequence of \<open>Lock\<close>, \<open>Unlock\<close>, \<open>Done\<close>, \<open>Add\<close> and
  \<open>Wait\<close> calls: the bound holds after every prefix of the sequence, whether the last call
  of the prefix returned, parked its goroutine or panicked.
\<close>

theorem held_within_capacity:
  assumes "0 <s maxv" and "New maxv = Inr g"
  shows "gate_inv (state_of (run (take k ops) g))
       \<and> capacity (state_of (run (take k ops) g)) = sint maxv"
  using run_bounded [OF New_bounded [OF assms(2)], of "take k ops"]
  by (simp add: bounded_by_def)

theorem held_within_capacity_witness:
  "0 <s (2 :: go_int)
   \<and> New 2 = Inr \<lparr>c = \<lparr>qcount = 0, dataqsiz = 2\<rparr>, m = False\<rparr>
   \<and> run (take 3 [OpAdd 2, OpWait, OpDone, OpLock, OpUnlock])
        \<lparr>c = \<lparr>qcount = 0, dataqsiz = 2\<rparr>, m = False\<rparr>
       = Blocks \<lparr>c = \<lparr>qcount = 2, dataqsiz = 2\<rparr>, m = True\<rparr>
   \<and> gate_inv (state_of (run (take 3 [OpAdd 2, OpWait, OpDone, OpLock, OpUnlock])
        \<lparr>c = \<lparr>qcount = 0, dataqsiz = 2\<rparr>, m = False\<rparr>))
   \<and> capacity (state_of (run (take 3 [OpAdd 2, OpWait, OpDone, OpLock, OpUnlock])
        \<lparr>c = \<lparr>qcount = 0, dataqsiz = 2\<rparr>, m = False\<rparr>)) = sint (2 :: go_int)"
proof -
  have pos: "0 <s (2 :: go_int)" by (simp add: word_sless_alt)
  have new: "New 2 = Inr \<lparr>c = \<lparr>qcount = 0, dataqsiz = 2\<rparr>, m = False\<rparr>"
    by (simp add: New_def makechan_def word_sless_alt)
  have run: "run (take 3 [OpAdd 2, OpWait, OpDone, OpLock, OpUnlock])
        \<lparr>c = \<lparr>qcount = 0, dataqsiz = 2\<rparr>, m = False\<rparr>
       = Blocks \<lparr>c = \<lparr>qcount = 2, dataqsiz = 2\<rparr>, m = True\<rparr>"
    by code_simp
  from pos new run held_within_capacity [OF pos new, of 3 "[OpAdd 2, OpWait, OpDone, OpLock, OpUnlock]"]
  show ?thesis by simp
qed

section \<open>Construction, Lock and Unlock\<close>

lemma New_cases:
  "(maxv <s 0 \<longrightarrow> New maxv = Inl MakechanSizeOutOfRange)
   \<and> (0 <s maxv \<longrightarrow>
        (\<exists>g. New maxv = Inr g \<and> capacity g = sint maxv \<and> held g = 0 \<and> \<not> m g))"
  by (auto simp: New_def makechan_def capacity_def held_def word_sless_alt)

text \<open>
  C2. \<open>New\<close> panics for a negative capacity and, for a positive one, returns a Gate of that
  capacity holding nothing (lemma \<open>New_cases\<close>). For capacity 0 the code does not panic,
  against its own comment "If capacity is non-positive, New would panic":
  \<open>make(chan struct{}, 0)\<close> is a valid unbuffered channel, and \<open>New(0)\<close> returns a Gate.
\<close>

theorem New_zero_returns_a_Gate:
  "New 0 = Inr \<lparr>c = \<lparr>qcount = 0, dataqsiz = 0\<rparr>, m = False\<rparr>"
  by (simp add: New_def makechan_def word_sless_alt)

text \<open>
  C3. With \<open>held < capacity\<close>, \<open>Lock\<close> returns and has added exactly one to \<open>held\<close>, the
  rest of the Gate untouched; with \<open>held = capacity\<close> it parks the caller and leaves the
  Gate as it was.
\<close>

theorem Lock_increments_or_blocks:
  "(held g < capacity g \<longrightarrow> Lock g = Returns (g\<lparr>c := (c g)\<lparr>qcount := held g + 1\<rparr>\<rparr>))
   \<and> (held g = capacity g \<longrightarrow> Lock g = Blocks g)"
  by (simp add: Lock_def send_eq)

theorem Lock_increments_or_blocks_witness:
  "held \<lparr>c = \<lparr>qcount = 1, dataqsiz = 2\<rparr>, m = False\<rparr>
     < capacity \<lparr>c = \<lparr>qcount = 1, dataqsiz = 2\<rparr>, m = False\<rparr>
   \<and> Lock \<lparr>c = \<lparr>qcount = 1, dataqsiz = 2\<rparr>, m = False\<rparr>
       = Returns \<lparr>c = \<lparr>qcount = 2, dataqsiz = 2\<rparr>, m = False\<rparr>
   \<and> held \<lparr>c = \<lparr>qcount = 2, dataqsiz = 2\<rparr>, m = False\<rparr>
     = capacity \<lparr>c = \<lparr>qcount = 2, dataqsiz = 2\<rparr>, m = False\<rparr>
   \<and> Lock \<lparr>c = \<lparr>qcount = 2, dataqsiz = 2\<rparr>, m = False\<rparr>
       = Blocks \<lparr>c = \<lparr>qcount = 2, dataqsiz = 2\<rparr>, m = False\<rparr>"
  using Lock_increments_or_blocks [of "\<lparr>c = \<lparr>qcount = 1, dataqsiz = 2\<rparr>, m = False\<rparr>"]
    Lock_increments_or_blocks [of "\<lparr>c = \<lparr>qcount = 2, dataqsiz = 2\<rparr>, m = False\<rparr>"]
  by (simp add: held_def capacity_def)

text \<open>
  C4. \<open>Unlock\<close> and \<open>Done\<close> are the same operation. With \<open>held > 0\<close> it returns and has
  taken exactly one from \<open>held\<close>; with \<open>held = 0\<close> it parks the caller and leaves the Gate
  as it was. It never panics, and it never takes \<open>held\<close> below 0.
\<close>

theorem Unlock_decrements_or_blocks:
  "Unlock = Done
   \<and> (0 < held g \<longrightarrow> Unlock g = Returns (g\<lparr>c := (c g)\<lparr>qcount := held g - 1\<rparr>\<rparr>))
   \<and> (held g = 0 \<longrightarrow> Unlock g = Blocks g)
   \<and> (\<forall>p s. Unlock g \<noteq> Panics p s)
   \<and> (0 \<le> held g \<longrightarrow> 0 \<le> held (state_of (Unlock g)))"
  by (simp add: Unlock_is_recv Done_is_recv recv_eq) (simp add: held_def)

theorem Unlock_decrements_or_blocks_witness:
  "0 < held \<lparr>c = \<lparr>qcount = 1, dataqsiz = 2\<rparr>, m = False\<rparr>
   \<and> Unlock \<lparr>c = \<lparr>qcount = 1, dataqsiz = 2\<rparr>, m = False\<rparr>
       = Returns \<lparr>c = \<lparr>qcount = 0, dataqsiz = 2\<rparr>, m = False\<rparr>
   \<and> Done \<lparr>c = \<lparr>qcount = 1, dataqsiz = 2\<rparr>, m = False\<rparr>
       = Returns \<lparr>c = \<lparr>qcount = 0, dataqsiz = 2\<rparr>, m = False\<rparr>
   \<and> held \<lparr>c = \<lparr>qcount = 0, dataqsiz = 2\<rparr>, m = False\<rparr> = 0
   \<and> Unlock \<lparr>c = \<lparr>qcount = 0, dataqsiz = 2\<rparr>, m = False\<rparr>
       = Blocks \<lparr>c = \<lparr>qcount = 0, dataqsiz = 2\<rparr>, m = False\<rparr>
   \<and> 0 \<le> held (state_of (Unlock \<lparr>c = \<lparr>qcount = 0, dataqsiz = 2\<rparr>, m = False\<rparr>))"
proof -
  note one = Unlock_decrements_or_blocks [of "\<lparr>c = \<lparr>qcount = 1, dataqsiz = 2\<rparr>, m = False\<rparr>"]
  note none = Unlock_decrements_or_blocks [of "\<lparr>c = \<lparr>qcount = 0, dataqsiz = 2\<rparr>, m = False\<rparr>"]
  have h1: "0 < held \<lparr>c = \<lparr>qcount = 1, dataqsiz = 2\<rparr>, m = False\<rparr>"
    and h0: "held \<lparr>c = \<lparr>qcount = 0, dataqsiz = 2\<rparr>, m = False\<rparr> = 0"
    by (simp_all add: held_def)
  have same: "Unlock = Done" using one by (rule conjunct1)
  have dec: "Unlock \<lparr>c = \<lparr>qcount = 1, dataqsiz = 2\<rparr>, m = False\<rparr>
       = Returns \<lparr>c = \<lparr>qcount = 0, dataqsiz = 2\<rparr>, m = False\<rparr>"
    using one [THEN conjunct2, THEN conjunct1] h1 by (simp add: held_def)
  have blk: "Unlock \<lparr>c = \<lparr>qcount = 0, dataqsiz = 2\<rparr>, m = False\<rparr>
       = Blocks \<lparr>c = \<lparr>qcount = 0, dataqsiz = 2\<rparr>, m = False\<rparr>"
    using none [THEN conjunct2, THEN conjunct2, THEN conjunct1] h0 by simp
  have nonneg: "0 \<le> held (state_of (Unlock \<lparr>c = \<lparr>qcount = 0, dataqsiz = 2\<rparr>, m = False\<rparr>))"
    using none [THEN conjunct2, THEN conjunct2, THEN conjunct2, THEN conjunct2] h0 by simp
  from dec have dec': "Done \<lparr>c = \<lparr>qcount = 1, dataqsiz = 2\<rparr>, m = False\<rparr>
       = Returns \<lparr>c = \<lparr>qcount = 0, dataqsiz = 2\<rparr>, m = False\<rparr>"
    unfolding same .
  from h1 dec dec' h0 blk nonneg show ?thesis by blast
qed

section \<open>The range check of Add\<close>

lemma sequential_send_no_panic: "sequential_calls k send g \<noteq> Panics p s"
  by (induction k arbitrary: g) (simp_all add: send_eq)

lemma sequential_recv_no_panic: "sequential_calls k recv g \<noteq> Panics p s"
  by (induction k arbitrary: g) (simp_all add: recv_eq)

lemma Add_panics_iff:
  assumes "0 \<le> capacity g" and "capacity g < 2 ^ 63" and "- (2 ^ 63) < sint n"
  shows "(capacity g < \<bar>sint n\<bar> \<longrightarrow> Add g n = Panics OutOfRangeAddArgument g)
       \<and> (\<bar>sint n\<bar> \<le> capacity g \<longrightarrow> (\<forall>p s. Add g n \<noteq> Panics p s))"
proof -
  have check: "(cap (c g) <s n \<or> cap (c g) <s - n) \<longleftrightarrow> capacity g < \<bar>sint n\<bar>"
    using sint_cap [OF assms(1,2)] sint_neg [OF assms(3)]
    by (auto simp: word_sless_alt)
  show ?thesis
    unfolding Add_def Let_def check
    by (simp add: add_send_loop_sequential add_recv_loop_sequential
        sequential_send_no_panic sequential_recv_no_panic)
qed

text \<open>
  C5. Within Go's \<open>int\<close>, \<open>Add\<close> panics, leaving the Gate as it was, exactly when the
  absolute value of its argument exceeds the capacity, for every argument but the least
  \<open>int\<close> (lemma \<open>Add_panics_iff\<close>). At the least \<open>int\<close>, \<open>-n\<close> wraps around to \<open>n\<close>, the
  check passes and \<open>Add\<close> returns, against its comment "If absolute value of N is greater
  than Gate capacity, Add would panic": on a Gate of capacity 4, \<open>Add(-9223372036854775808)\<close>
  returns and has done nothing.
\<close>

theorem Add_least_int_returns:
  "Add \<lparr>c = \<lparr>qcount = 0, dataqsiz = 4\<rparr>, m = False\<rparr> (- 9223372036854775808)
     = Returns \<lparr>c = \<lparr>qcount = 0, dataqsiz = 4\<rparr>, m = False\<rparr>"
  by (simp add: Add_def Let_def cap_def word_sless_alt add_recv_loop.simps [of 0])

text \<open>
  C9. At the least \<open>int\<close>, negation wraps around to the argument itself, a negative
  number; the range check of \<open>Add\<close> passes whatever the capacity, the receiving loop makes
  no iteration, and \<open>Add\<close> returns with the Gate as it was, without a panic.
\<close>

theorem Add_min_int_is_noop:
  "- (- (2 ^ 63) :: go_int) = - (2 ^ 63)
   \<and> (- (2 ^ 63) :: go_int) <s 0
   \<and> \<not> (cap (c g) <s - (2 ^ 63) \<or> cap (c g) <s - (- (2 ^ 63)))
   \<and> add_recv_loop 0 (- (- (2 ^ 63))) g = Returns g
   \<and> Add g (- (2 ^ 63)) = Returns g"
proof -
  have neg: "- (- (2 ^ 63) :: go_int) = - (2 ^ 63)" by simp
  have below: "(- (2 ^ 63) :: go_int) <s 0" by (simp add: word_sless_alt)
  have check: "\<not> (cap (c g) <s - (2 ^ 63) \<or> cap (c g) <s - (- (2 ^ 63)))"
    unfolding neg using not_below_min_int [of "cap (c g)"] by simp
  have nonpos: "\<not> 0 <s (- (2 ^ 63) :: go_int)" by (simp add: word_sless_alt)
  have "add_recv_loop 0 (- (2 ^ 63)) g =
      (if 0 <s (- (2 ^ 63) :: go_int) then and_then (recv g) (add_recv_loop (0 + 1) (- (2 ^ 63)))
       else Returns g)"
    by (rule add_recv_loop.simps)
  then have loop': "add_recv_loop 0 (- (2 ^ 63)) g = Returns g"
    by (simp only: nonpos if_False)
  then have loop: "add_recv_loop 0 (- (- (2 ^ 63))) g = Returns g"
    by (simp only: neg)
  have "Add g (- (2 ^ 63)) =
      (if cap (c g) <s - (2 ^ 63) \<or> cap (c g) <s - (- (2 ^ 63))
       then Panics OutOfRangeAddArgument g
       else if 0 <s (- (2 ^ 63) :: go_int) then add_send_loop 0 (- (2 ^ 63)) g
       else add_recv_loop 0 (- (- (2 ^ 63))) g)"
    by (simp only: Add_def Let_def)
  then have "Add g (- (2 ^ 63)) = Returns g"
    by (simp only: check nonpos if_False loop)
  with neg below check loop show ?thesis by blast
qed

section \<open>Lock and Unlock undo each other\<close>

text \<open>
  C10. On a Gate state within the invariant: with \<open>held < capacity\<close>, \<open>Lock\<close> followed at
  once by \<open>Unlock\<close> returns and restores the state exactly; with \<open>held > 0\<close>, \<open>Unlock\<close>
  followed at once by \<open>Lock\<close> does.
\<close>

theorem Lock_Unlock_inverse:
  assumes "gate_inv g"
  shows "(held g < capacity g \<longrightarrow> and_then (Lock g) Unlock = Returns g)
       \<and> (0 < held g \<longrightarrow> and_then (Unlock g) Lock = Returns g)"
  using assms
  by (simp add: Lock_def Unlock_def send_eq recv_eq gate_inv_def)
    (simp add: held_def capacity_def)

theorem Lock_Unlock_inverse_witness:
  "gate_inv \<lparr>c = \<lparr>qcount = 1, dataqsiz = 2\<rparr>, m = False\<rparr>
   \<and> held \<lparr>c = \<lparr>qcount = 1, dataqsiz = 2\<rparr>, m = False\<rparr>
       < capacity \<lparr>c = \<lparr>qcount = 1, dataqsiz = 2\<rparr>, m = False\<rparr>
   \<and> 0 < held \<lparr>c = \<lparr>qcount = 1, dataqsiz = 2\<rparr>, m = False\<rparr>
   \<and> and_then (Lock \<lparr>c = \<lparr>qcount = 1, dataqsiz = 2\<rparr>, m = False\<rparr>) Unlock
       = Returns \<lparr>c = \<lparr>qcount = 1, dataqsiz = 2\<rparr>, m = False\<rparr>
   \<and> and_then (Unlock \<lparr>c = \<lparr>qcount = 1, dataqsiz = 2\<rparr>, m = False\<rparr>) Lock
       = Returns \<lparr>c = \<lparr>qcount = 1, dataqsiz = 2\<rparr>, m = False\<rparr>"
proof -
  have inv: "gate_inv \<lparr>c = \<lparr>qcount = 1, dataqsiz = 2\<rparr>, m = False\<rparr>"
    by (simp add: gate_inv_def held_def capacity_def)
  from inv Lock_Unlock_inverse [OF inv] show ?thesis
    by (simp add: held_def capacity_def)
qed

section \<open>Add as a batch of calls\<close>

lemma sequential_send_closed:
  assumes "held g \<le> capacity g"
  shows "sequential_calls j send g =
      (if held g + int j \<le> capacity g
       then Returns (g\<lparr>c := (c g)\<lparr>qcount := held g + int j\<rparr>\<rparr>)
       else Blocks (g\<lparr>c := (c g)\<lparr>qcount := capacity g\<rparr>\<rparr>))"
  using assms
proof (induction j arbitrary: g)
  case 0
  then show ?case by (simp add: held_def)
next
  case (Suc j)
  show ?case
  proof (cases "held g < capacity g")
    case True
    let ?g1 = "g\<lparr>c := (c g)\<lparr>qcount := held g + 1\<rparr>\<rparr>"
    have "held ?g1 \<le> capacity ?g1" using True by (simp add: held_def capacity_def)
    from Suc.IH [OF this] True show ?thesis
      by (simp add: send_eq) (simp add: held_def capacity_def add.assoc)
  next
    case False
    with Suc.prems have "held g = capacity g" by simp
    then show ?thesis by (simp add: send_eq) (simp add: held_def capacity_def)
  qed
qed

lemma sequential_recv_closed:
  assumes "0 \<le> held g"
  shows "sequential_calls j recv g =
      (if int j \<le> held g
       then Returns (g\<lparr>c := (c g)\<lparr>qcount := held g - int j\<rparr>\<rparr>)
       else Blocks (g\<lparr>c := (c g)\<lparr>qcount := 0\<rparr>\<rparr>))"
  using assms
proof (induction j arbitrary: g)
  case 0
  then show ?case by (simp add: held_def)
next
  case (Suc j)
  show ?case
  proof (cases "0 < held g")
    case True
    let ?g1 = "g\<lparr>c := (c g)\<lparr>qcount := held g - 1\<rparr>\<rparr>"
    have "0 \<le> held ?g1" using True by (simp add: held_def)
    from Suc.IH [OF this] True show ?thesis
      by (simp add: recv_eq) (auto simp: held_def diff_diff_eq add.commute)
  next
    case False
    with Suc.prems have "held g = 0" by simp
    then show ?thesis by (simp add: recv_eq) (simp add: held_def)
  qed
qed

text \<open>
  C6. On a Gate whose capacity fits a Go \<open>int\<close>: for \<open>0 < n \<le> capacity\<close>, \<open>Add(n)\<close> has the
  outcome of \<open>n\<close> sequential \<open>Lock\<close> calls; for \<open>-capacity \<le> n < 0\<close>, the outcome of \<open>|n|\<close>
  sequential \<open>Unlock\<close> calls; \<open>Add(0)\<close> returns with the Gate as it was. The outcomes are
  equal as a whole: the same end state when both return, and the same state at the call
  that parks when one does.
\<close>

theorem Add_is_sequential_calls:
  assumes "0 \<le> capacity g" and "capacity g < 2 ^ 63"
  shows "(0 < sint n \<and> sint n \<le> capacity g \<longrightarrow>
            Add g n = sequential_calls (nat (sint n)) Lock g)
       \<and> (- capacity g \<le> sint n \<and> sint n < 0 \<longrightarrow>
            Add g n = sequential_calls (nat (- sint n)) Unlock g)
       \<and> Add g 0 = Returns g"
proof (intro conjI impI)
  assume n: "0 < sint n \<and> sint n \<le> capacity g"
  have "- (2 ^ 63) < sint n" using n by simp
  from Add_panics_iff [OF assms this] n
  have "\<not> (cap (c g) <s n \<or> cap (c g) <s - n)"
    by (auto simp: Add_def Let_def)
  with n show "Add g n = sequential_calls (nat (sint n)) Lock g"
    by (simp add: Add_def Let_def word_sless_alt add_send_loop_sequential Lock_is_send)
next
  assume n: "- capacity g \<le> sint n \<and> sint n < 0"
  with assms have low: "- (2 ^ 63) < sint n" by simp
  from Add_panics_iff [OF assms low] n
  have "\<not> (cap (c g) <s n \<or> cap (c g) <s - n)"
    by (auto simp: Add_def Let_def)
  with n show "Add g n = sequential_calls (nat (- sint n)) Unlock g"
    by (simp add: Add_def Let_def word_sless_alt add_recv_loop_sequential Unlock_is_recv
        sint_neg [OF low])
next
  have "\<not> cap (c g) <s 0" using sint_cap [OF assms] assms(1) by (simp add: word_sless_alt)
  then show "Add g 0 = Returns g"
    by (simp add: Add_def Let_def add_recv_loop.simps [of 0 0 g])
qed

theorem Add_is_sequential_calls_witness:
  "0 \<le> capacity \<lparr>c = \<lparr>qcount = 1, dataqsiz = 3\<rparr>, m = False\<rparr>
   \<and> capacity \<lparr>c = \<lparr>qcount = 1, dataqsiz = 3\<rparr>, m = False\<rparr> < 2 ^ 63
   \<and> 0 < sint (2 :: go_int)
   \<and> sint (2 :: go_int) \<le> capacity \<lparr>c = \<lparr>qcount = 1, dataqsiz = 3\<rparr>, m = False\<rparr>
   \<and> Add \<lparr>c = \<lparr>qcount = 1, dataqsiz = 3\<rparr>, m = False\<rparr> 2
       = sequential_calls (nat (sint (2 :: go_int))) Lock \<lparr>c = \<lparr>qcount = 1, dataqsiz = 3\<rparr>, m = False\<rparr>
   \<and> sequential_calls (nat (sint (2 :: go_int))) Lock \<lparr>c = \<lparr>qcount = 1, dataqsiz = 3\<rparr>, m = False\<rparr>
       = Returns \<lparr>c = \<lparr>qcount = 3, dataqsiz = 3\<rparr>, m = False\<rparr>
   \<and> - capacity \<lparr>c = \<lparr>qcount = 1, dataqsiz = 3\<rparr>, m = False\<rparr> \<le> sint (- 1 :: go_int)
   \<and> sint (- 1 :: go_int) < 0
   \<and> Add \<lparr>c = \<lparr>qcount = 1, dataqsiz = 3\<rparr>, m = False\<rparr> (- 1)
       = sequential_calls (nat (- sint (- 1 :: go_int))) Unlock \<lparr>c = \<lparr>qcount = 1, dataqsiz = 3\<rparr>, m = False\<rparr>
   \<and> sequential_calls (nat (- sint (- 1 :: go_int))) Unlock \<lparr>c = \<lparr>qcount = 1, dataqsiz = 3\<rparr>, m = False\<rparr>
       = Returns \<lparr>c = \<lparr>qcount = 0, dataqsiz = 3\<rparr>, m = False\<rparr>"
proof -
  let ?g = "\<lparr>c = \<lparr>qcount = 1, dataqsiz = 3\<rparr>, m = False\<rparr>"
  have lo: "0 \<le> capacity ?g" and hi: "capacity ?g < 2 ^ 63"
    by (simp_all add: capacity_def)
  have pos: "0 < sint (2 :: go_int) \<and> sint (2 :: go_int) \<le> capacity ?g"
    by (simp add: capacity_def)
  have neg: "- capacity ?g \<le> sint (- 1 :: go_int) \<and> sint (- 1 :: go_int) < 0"
    by (simp add: capacity_def)
  note batch = Add_is_sequential_calls [OF lo hi]
  have up: "Add ?g 2 = sequential_calls (nat (sint (2 :: go_int))) Lock ?g"
    using batch [of 2, THEN conjunct1] pos by blast
  have down: "Add ?g (- 1) = sequential_calls (nat (- sint (- 1 :: go_int))) Unlock ?g"
    using batch [of "- 1", THEN conjunct2, THEN conjunct1] neg by blast
  have locks: "sequential_calls (nat (sint (2 :: go_int))) Lock ?g
      = Returns \<lparr>c = \<lparr>qcount = 3, dataqsiz = 3\<rparr>, m = False\<rparr>"
    by (simp add: numeral_2_eq_2 Lock_def send_eq held_def capacity_def)
  have unlocks: "sequential_calls (nat (- sint (- 1 :: go_int))) Unlock ?g
      = Returns \<lparr>c = \<lparr>qcount = 0, dataqsiz = 3\<rparr>, m = False\<rparr>"
    by (simp add: Unlock_def recv_eq held_def capacity_def)
  from lo hi pos neg up down locks unlocks show ?thesis by blast
qed

section \<open>Wait\<close>

lemma wait_send_loop_sequential:
  assumes "0 \<le> capacity g" and "capacity g < 2 ^ 63"
  shows "wait_send_loop 0 g = sequential_calls (nat (capacity g)) Lock g"
  by (simp add: wait_send_loop_fixed_bound add_send_loop_sequential sint_cap [OF assms]
      Lock_is_send)

lemma wait_recv_loop_sequential:
  assumes "0 \<le> capacity g" and "capacity g < 2 ^ 63"
  shows "wait_recv_loop 0 g = sequential_calls (nat (capacity g)) Unlock g"
  by (simp add: wait_recv_loop_fixed_bound add_recv_loop_sequential sint_cap [OF assms]
      Unlock_is_recv)

lemma mutex_Lock_Returns:
  "mutex_Lock g = Returns g1 \<Longrightarrow> g1 = g\<lparr>m := True\<rparr> \<and> \<not> m g"
  by (auto simp: mutex_Lock_def split: if_splits)

lemma sequential_send_capacity:
  "sequential_calls j send g = Returns g' \<Longrightarrow> capacity g' = capacity g"
proof (induction j arbitrary: g)
  case 0
  then show ?case by simp
next
  case (Suc j)
  then show ?case
    by (auto simp: send_eq capacity_def split: if_splits)
qed

lemma Wait_is_Wait_spec:
  assumes "0 \<le> capacity g" and "capacity g < 2 ^ 63"
  shows "Wait g = Wait_spec g"
  unfolding Wait_def Wait_spec_def
proof (rule and_then_cong [OF refl])
  fix g1 assume "mutex_Lock g = Returns g1"
  then have g1: "g1 = g\<lparr>m := True\<rparr>" by (simp add: mutex_Lock_Returns)
  then have cap1: "capacity g1 = capacity g" by (simp add: capacity_def)
  with assms have r1: "0 \<le> capacity g1" "capacity g1 < 2 ^ 63" by simp_all
  have "and_then (wait_send_loop 0 g1) (wait_recv_loop 0)
      = and_then (sequential_calls (nat (capacity g)) Lock g1)
          (sequential_calls (nat (capacity g)) Unlock)"
  proof (rule and_then_cong)
    show "wait_send_loop 0 g1 = sequential_calls (nat (capacity g)) Lock g1"
      using wait_send_loop_sequential [OF r1] cap1 by simp
  next
    fix g2 assume "sequential_calls (nat (capacity g)) Lock g1 = Returns g2"
    then have "capacity g2 = capacity g"
      using cap1 by (simp add: Lock_is_send sequential_send_capacity)
    with assms wait_recv_loop_sequential [of g2]
    show "wait_recv_loop 0 g2 = sequential_calls (nat (capacity g)) Unlock g2" by simp
  qed
  then show "and_then (and_then (wait_send_loop 0 g1) (wait_recv_loop 0)) mutex_Unlock
      = and_then
          (and_then (sequential_calls (nat (capacity g)) Lock g1)
             (sequential_calls (nat (capacity g)) Unlock))
          mutex_Unlock"
    by simp
qed

lemma Wait_spec_closed:
  assumes "gate_inv g"
  shows "Wait_spec g =
      (if m g then Blocks g
       else if held g = 0 then Returns g
       else Blocks (g\<lparr>c := (c g)\<lparr>qcount := capacity g\<rparr>, m := True\<rparr>))"
proof (cases "m g")
  case True
  then show ?thesis by (simp add: Wait_spec_def mutex_Lock_def)
next
  case False
  let ?g1 = "g\<lparr>m := True\<rparr>"
  from assms have inv: "0 \<le> held g" "held g \<le> capacity g"
    by (simp_all add: gate_inv_def)
  then have k: "0 \<le> capacity g" by simp
  have h1: "held ?g1 \<le> capacity ?g1" using inv by (simp add: held_def capacity_def)
  have sends: "sequential_calls (nat (capacity g)) Lock ?g1 =
      (if held g = 0 then Returns (g\<lparr>c := (c g)\<lparr>qcount := capacity g\<rparr>, m := True\<rparr>)
       else Blocks (g\<lparr>c := (c g)\<lparr>qcount := capacity g\<rparr>, m := True\<rparr>))"
    using sequential_send_closed [OF h1, of "nat (capacity g)"] inv k
    by (simp add: Lock_is_send held_def capacity_def)
  let ?g2 = "g\<lparr>c := (c g)\<lparr>qcount := capacity g\<rparr>, m := True\<rparr>"
  have h2: "0 \<le> held ?g2" using k by (simp add: held_def)
  have recvs: "held g = 0 \<Longrightarrow>
      sequential_calls (nat (capacity g)) Unlock ?g2 = Returns (g\<lparr>m := True\<rparr>)"
    using sequential_recv_closed [OF h2, of "nat (capacity g)"] k
    by (simp add: Unlock_is_recv held_def capacity_def)
  show ?thesis
    using False sends recvs
    by (simp add: Wait_spec_def mutex_Lock_def mutex_Unlock_def)
qed

text \<open>
  C7. On a Gate state within the invariant whose capacity fits a Go \<open>int\<close>, \<open>Wait\<close> is
  what the spec says: under the mutex, \<open>capacity\<close> sequential \<open>Lock\<close> calls, then
  \<open>capacity\<close> sequential \<open>Unlock\<close> calls. From \<open>held = 0\<close> with the mutex free it returns
  and is the identity on the Gate; and whenever it returns, \<open>held\<close> is 0 and the capacity
  is what it was.
\<close>

theorem Wait_drains_and_refills:
  assumes "gate_inv g" and "capacity g < 2 ^ 63"
  shows "Wait g = Wait_spec g
       \<and> (held g = 0 \<and> \<not> m g \<longrightarrow> Wait g = Returns g)
       \<and> (\<forall>g'. Wait g = Returns g' \<longrightarrow> held g' = 0 \<and> capacity g' = capacity g)"
proof -
  from assms(1) have "0 \<le> capacity g" by (simp add: gate_inv_def)
  then have eq: "Wait g = Wait_spec g" using assms(2) by (rule Wait_is_Wait_spec)
  note closed = Wait_spec_closed [OF assms(1)]
  have idle: "held g = 0 \<and> \<not> m g \<longrightarrow> Wait g = Returns g"
    unfolding eq closed by simp
  have returned: "\<forall>g'. Wait g = Returns g' \<longrightarrow> held g' = 0 \<and> capacity g' = capacity g"
    unfolding eq closed by (auto split: if_splits)
  from eq idle returned show ?thesis by blast
qed

theorem Wait_drains_and_refills_witness:
  "gate_inv \<lparr>c = \<lparr>qcount = 0, dataqsiz = 3\<rparr>, m = False\<rparr>
   \<and> capacity \<lparr>c = \<lparr>qcount = 0, dataqsiz = 3\<rparr>, m = False\<rparr> < 2 ^ 63
   \<and> held \<lparr>c = \<lparr>qcount = 0, dataqsiz = 3\<rparr>, m = False\<rparr> = 0
   \<and> \<not> m \<lparr>c = \<lparr>qcount = 0, dataqsiz = 3\<rparr>, m = False\<rparr>
   \<and> Wait \<lparr>c = \<lparr>qcount = 0, dataqsiz = 3\<rparr>, m = False\<rparr>
       = Returns \<lparr>c = \<lparr>qcount = 0, dataqsiz = 3\<rparr>, m = False\<rparr>
   \<and> Wait_spec \<lparr>c = \<lparr>qcount = 0, dataqsiz = 3\<rparr>, m = False\<rparr>
       = Returns \<lparr>c = \<lparr>qcount = 0, dataqsiz = 3\<rparr>, m = False\<rparr>"
proof -
  let ?g = "\<lparr>c = \<lparr>qcount = 0, dataqsiz = 3\<rparr>, m = False\<rparr>"
  have inv: "gate_inv ?g" by (simp add: gate_inv_def held_def capacity_def)
  have fits: "capacity ?g < 2 ^ 63" by (simp add: capacity_def)
  have idle: "held ?g = 0 \<and> \<not> m ?g" by (simp add: held_def)
  note w = Wait_drains_and_refills [OF inv fits]
  have ret: "Wait ?g = Returns ?g" using w idle by blast
  have "Wait ?g = Wait_spec ?g" using w by blast
  with ret have spec: "Wait_spec ?g = Returns ?g" by simp
  from inv fits idle ret spec show ?thesis by blast
qed

section \<open>Two goroutines and a Gate of capacity 1\<close>

lemma step_shrinks:
  assumes "step i (g, ts) = Some (g', ts')"
  shows "length ts' = length ts \<and> length (ts' ! j) \<le> length (ts ! j)"
proof -
  from assms obtain x rest where i: "i < length ts" and ti: "ts ! i = x # rest"
    and ts': "ts' = ts[i := rest]"
    by (auto split: if_splits list.splits outcome.splits)
  show ?thesis
  proof (cases "j = i")
    case True
    with i ti ts' show ?thesis by simp
  next
    case False
    with ts' show ?thesis by simp
  qed
qed

lemma exec_after_Unlock:
  assumes "length (snd cfg) = 2" and "length (snd cfg ! 0) \<le> k"
  shows "length (snd (exec sched cfg)) = 2 \<and> length (snd (exec sched cfg) ! 0) \<le> k"
  using assms
proof (induction sched arbitrary: cfg)
  case Nil
  then show ?case by simp
next
  case (Cons i sched)
  show ?case
  proof (cases "step i cfg")
    case None
    with Cons.IH [OF Cons.prems] show ?thesis by simp
  next
    case (Some cfg')
    obtain g ts where cfg: "cfg = (g, ts)" by (cases cfg)
    obtain g' ts' where cfg': "cfg' = (g', ts')" by (cases cfg')
    from step_shrinks [of i g ts g' ts' 0] Some cfg cfg' Cons.prems
    have "length (snd cfg') = 2" "length (snd cfg' ! 0) \<le> k" by simp_all
    from Cons.IH [OF this] Some show ?thesis by simp
  qed
qed

lemma exec_holder_first:
  assumes "capacity g = 1" and "held g = 1"
  shows "exec sched (g, [CallUnlock # ra, CallLock # rb]) = (g, [CallUnlock # ra, CallLock # rb])
       \<or> length (snd (exec sched (g, [CallUnlock # ra, CallLock # rb])) ! 0) \<le> length ra"
proof (induction sched)
  case Nil
  show ?case by simp
next
  case (Cons i sched)
  consider "i = 0" | "i = 1" | "2 \<le> i" by linarith
  then show ?case
  proof cases
    case 1
    have "step 0 (g, [CallUnlock # ra, CallLock # rb])
        = Some (g\<lparr>c := (c g)\<lparr>qcount := held g - 1\<rparr>\<rparr>, [ra, CallLock # rb])"
      using assms by (simp add: Unlock_def recv_eq)
    with 1 exec_after_Unlock [of "(g\<lparr>c := (c g)\<lparr>qcount := held g - 1\<rparr>\<rparr>, [ra, CallLock # rb])" "length ra" sched]
    show ?thesis by simp
  next
    case 2
    have "step 1 (g, [CallUnlock # ra, CallLock # rb]) = None"
      using assms by (simp add: Lock_def send_eq)
    with 2 Cons.IH show ?thesis by simp
  next
    case 3
    then have "step i (g, [CallUnlock # ra, CallLock # rb]) = None" by simp
    with Cons.IH show ?thesis by simp
  qed
qed

text \<open>
  C8. A Gate of capacity 1 whose unit is held, shared by the holder, whose next call is
  \<open>Unlock\<close>, and a second goroutine, whose next call is \<open>Lock\<close>. The second goroutine's
  \<open>Lock\<close> cannot proceed while the unit is held; under every schedule, if that \<open>Lock\<close> has
  returned then the holder's \<open>Unlock\<close> has been performed; and once the holder has
  unlocked, the second goroutine's \<open>Lock\<close> completes, taking the unit.
\<close>

theorem second_Lock_waits_for_Unlock:
  assumes "capacity g = 1" and "held g = 1"
  shows "step 1 (g, [CallUnlock # ra, CallLock # rb]) = None
       \<and> (\<forall>sched. length (snd (exec sched (g, [CallUnlock # ra, CallLock # rb])) ! 1) \<le> length rb
            \<longrightarrow> length (snd (exec sched (g, [CallUnlock # ra, CallLock # rb])) ! 0) \<le> length ra)
       \<and> step 0 (g, [CallUnlock # ra, CallLock # rb])
           = Some (g\<lparr>c := (c g)\<lparr>qcount := 0\<rparr>\<rparr>, [ra, CallLock # rb])
       \<and> step 1 (g\<lparr>c := (c g)\<lparr>qcount := 0\<rparr>\<rparr>, [ra, CallLock # rb])
           = Some (g, [ra, rb])"
proof (intro conjI allI impI)
  show "step 1 (g, [CallUnlock # ra, CallLock # rb]) = None"
    using assms by (simp add: Lock_def send_eq)
next
  fix sched
  assume b: "length (snd (exec sched (g, [CallUnlock # ra, CallLock # rb])) ! 1) \<le> length rb"
  from exec_holder_first [OF assms, of sched ra rb]
  show "length (snd (exec sched (g, [CallUnlock # ra, CallLock # rb])) ! 0) \<le> length ra"
  proof
    assume "exec sched (g, [CallUnlock # ra, CallLock # rb]) = (g, [CallUnlock # ra, CallLock # rb])"
    with b show ?thesis by simp
  next
    assume "length (snd (exec sched (g, [CallUnlock # ra, CallLock # rb])) ! 0) \<le> length ra"
    then show ?thesis .
  qed
next
  show "step 0 (g, [CallUnlock # ra, CallLock # rb])
      = Some (g\<lparr>c := (c g)\<lparr>qcount := 0\<rparr>\<rparr>, [ra, CallLock # rb])"
    using assms by (simp add: Unlock_def recv_eq)
next
  have "g\<lparr>c := (c g)\<lparr>qcount := 1\<rparr>\<rparr> = g"
    using assms(2) by (simp add: held_def)
  then show "step 1 (g\<lparr>c := (c g)\<lparr>qcount := 0\<rparr>\<rparr>, [ra, CallLock # rb]) = Some (g, [ra, rb])"
    using assms by (simp add: Lock_def send_eq) (simp add: held_def capacity_def)
qed

theorem second_Lock_waits_for_Unlock_witness:
  "capacity \<lparr>c = \<lparr>qcount = 1, dataqsiz = 1\<rparr>, m = False\<rparr> = 1
   \<and> held \<lparr>c = \<lparr>qcount = 1, dataqsiz = 1\<rparr>, m = False\<rparr> = 1
   \<and> step 1 (\<lparr>c = \<lparr>qcount = 1, dataqsiz = 1\<rparr>, m = False\<rparr>, [[CallUnlock], [CallLock, CallUnlock]])
       = None
   \<and> exec [1, 0, 1] (\<lparr>c = \<lparr>qcount = 1, dataqsiz = 1\<rparr>, m = False\<rparr>, [[CallUnlock], [CallLock, CallUnlock]])
       = (\<lparr>c = \<lparr>qcount = 1, dataqsiz = 1\<rparr>, m = False\<rparr>, [[], [CallUnlock]])
   \<and> length (snd (exec [1, 0, 1] (\<lparr>c = \<lparr>qcount = 1, dataqsiz = 1\<rparr>, m = False\<rparr>,
        [[CallUnlock], [CallLock, CallUnlock]])) ! 1) \<le> length [CallUnlock]
   \<and> length (snd (exec [1, 0, 1] (\<lparr>c = \<lparr>qcount = 1, dataqsiz = 1\<rparr>, m = False\<rparr>,
        [[CallUnlock], [CallLock, CallUnlock]])) ! 0) \<le> length ([] :: chan_call list)
   \<and> step 0 (\<lparr>c = \<lparr>qcount = 1, dataqsiz = 1\<rparr>, m = False\<rparr>, [[CallUnlock], [CallLock, CallUnlock]])
       = Some (\<lparr>c = \<lparr>qcount = 0, dataqsiz = 1\<rparr>, m = False\<rparr>, [[], [CallLock, CallUnlock]])
   \<and> step 1 (\<lparr>c = \<lparr>qcount = 0, dataqsiz = 1\<rparr>, m = False\<rparr>, [[], [CallLock, CallUnlock]])
       = Some (\<lparr>c = \<lparr>qcount = 1, dataqsiz = 1\<rparr>, m = False\<rparr>, [[], [CallUnlock]])"
proof -
  let ?g = "\<lparr>c = \<lparr>qcount = 1, dataqsiz = 1\<rparr>, m = False\<rparr>"
  have cp: "capacity ?g = 1" and hd: "held ?g = 1"
    by (simp_all add: capacity_def held_def)
  note w = second_Lock_waits_for_Unlock [OF cp hd, of "[]" "[CallUnlock]"]
  have parked: "step 1 (?g, [[CallUnlock], [CallLock, CallUnlock]]) = None"
    using w by (rule conjunct1)
  have run: "exec [1, 0, 1] (?g, [[CallUnlock], [CallLock, CallUnlock]])
      = (?g, [[], [CallUnlock]])"
    by (simp add: Lock_def Unlock_def send_eq recv_eq held_def capacity_def)
  have b: "length (snd (exec [1, 0, 1] (?g, [[CallUnlock], [CallLock, CallUnlock]])) ! 1)
      \<le> length [CallUnlock]"
    unfolding run by simp
  have a: "length (snd (exec [1, 0, 1] (?g, [[CallUnlock], [CallLock, CallUnlock]])) ! 0)
      \<le> length ([] :: chan_call list)"
    using w [THEN conjunct2, THEN conjunct1] b by blast
  have unlock: "step 0 (?g, [[CallUnlock], [CallLock, CallUnlock]])
      = Some (\<lparr>c = \<lparr>qcount = 0, dataqsiz = 1\<rparr>, m = False\<rparr>, [[], [CallLock, CallUnlock]])"
    using w [THEN conjunct2, THEN conjunct2, THEN conjunct1] by simp
  have lock: "step 1 (\<lparr>c = \<lparr>qcount = 0, dataqsiz = 1\<rparr>, m = False\<rparr>, [[], [CallLock, CallUnlock]])
      = Some (?g, [[], [CallUnlock]])"
    using w [THEN conjunct2, THEN conjunct2, THEN conjunct2] by simp
  from cp hd parked run b a unlock lock show ?thesis by blast
qed

end
